theory Spec2Isabelle
  imports Complex_Main "HOL-Library.Monad_Syntax"
begin

section \<open>Data generators of the pomegranate tutorial\<close>

text \<open>
  The development embeds the two classes of
  \<^verbatim>\<open>tutorials/C_Feature_Tutorial_7_Data_Generators.ipynb\<close>:
  the abstract \<^verbatim>\<open>BaseGenerator\<close> and the out-of-core adapter
  \<^verbatim>\<open>MemoryMapGenerator\<close> that wraps a numpy array living on disk.
\<close>

subsection \<open>Arrays, files and slices (numpy)\<close>

text \<open>
  An array of at least one dimension is the list of its entries along the leading
  axis: a row of a two-dimensional array is a \<open>Row\<close>, an entry of a one-dimensional
  array is a \<open>Scalar\<close>. Zero-dimensional arrays, which have no length, are not
  values of the type \<open>ndarray\<close>. No arithmetic is done on the numbers, so a
  number is a \<open>real\<close>.
\<close>

datatype entry = Scalar real | Row "entry list"

type_synonym ndarray = "entry list"

text \<open>
  The exceptions a call can raise. \<^verbatim>\<open>numpy.load\<close> raises
  \<^verbatim>\<open>FileNotFoundError\<close> for a name that is not on the disk.
\<close>

datatype error = FileNotFoundError

text \<open>
  The disk maps a file name to the array saved under it.
  \<^verbatim>\<open>numpy.load(filename, mmap_mode='r')\<close> opens the array read-only; the
  contents are read when sliced, and nothing in the class writes them.
\<close>

type_synonym disk = "string \<rightharpoonup> ndarray"

definition numpy_load :: "disk \<Rightarrow> string \<Rightarrow> error + ndarray" where
  "numpy_load fs filename =
     (case fs filename of None \<Rightarrow> Inl FileNotFoundError | Some a \<Rightarrow> Inr a)"

text \<open>\<^verbatim>\<open>numpy.ones(n)\<close>: the one-dimensional array of \<open>n\<close> entries \<open>1.0\<close>.\<close>

definition numpy_ones :: "nat \<Rightarrow> ndarray" where
  "numpy_ones n = replicate n (Scalar 1)"

text \<open>
  The slice \<^verbatim>\<open>a[start:stop]\<close> along the leading axis, for integers of either
  sign: a negative index counts from the end, and both indices are clamped to
  \<open>0 .. len(a)\<close>; the slice is empty when the adjusted stop is not after the
  adjusted start.
\<close>

definition adjust_index :: "int \<Rightarrow> int \<Rightarrow> int" where
  "adjust_index n i = (if i < 0 then max (i + n) 0 else min i n)"

definition py_slice :: "'a list \<Rightarrow> int \<Rightarrow> int \<Rightarrow> 'a list" where
  "py_slice a start stop =
     (let n = int (length a);
          s = adjust_index n start;
          e = adjust_index n stop
      in take (nat (e - s)) (drop (nat s) a))"

subsection \<open>BaseGenerator\<close>

text \<open>
  \<^verbatim>\<open>
  class BaseGenerator(object):
      def __init__(self): pass
      def __len__(self): return NotImplementedError
      @property
      def shape(self): return NotImplementedError
      @property
      def ndim(self): return NotImplementedError
      def batches(self): return NotImplementedError
      def unlabeled_batches(self): return NotImplementedError
      def labeled_batches(self): return NotImplementedError
  \<close>
  Each method body is a \<^verbatim>\<open>return\<close> statement whose value is the exception
  class itself. A call is modelled by its outcome: an exception that propagates to
  the caller, or the object handed back.
\<close>

datatype py_object = NotImplementedError_class

datatype py_exception = NotImplementedError

datatype outcome = Raises py_exception | Returns py_object

text \<open>The constructor sets no attribute: every instance is the same bare object.\<close>

datatype BaseGenerator = BaseGenerator_object

definition BaseGenerator_init :: "BaseGenerator" where
  "BaseGenerator_init = BaseGenerator_object"

definition BaseGenerator_len :: "BaseGenerator \<Rightarrow> outcome" where
  "BaseGenerator_len self = Returns NotImplementedError_class"

definition BaseGenerator_shape :: "BaseGenerator \<Rightarrow> outcome" where
  "BaseGenerator_shape self = Returns NotImplementedError_class"

definition BaseGenerator_ndim :: "BaseGenerator \<Rightarrow> outcome" where
  "BaseGenerator_ndim self = Returns NotImplementedError_class"

definition BaseGenerator_batches :: "BaseGenerator \<Rightarrow> outcome" where
  "BaseGenerator_batches self = Returns NotImplementedError_class"

definition BaseGenerator_unlabeled_batches :: "BaseGenerator \<Rightarrow> outcome" where
  "BaseGenerator_unlabeled_batches self = Returns NotImplementedError_class"

definition BaseGenerator_labeled_batches :: "BaseGenerator \<Rightarrow> outcome" where
  "BaseGenerator_labeled_batches self = Returns NotImplementedError_class"

subsection \<open>MemoryMapGenerator\<close>

text \<open>
  \<^verbatim>\<open>
  class MemoryMapGenerator(BaseGenerator):
      def __init__(self, filename, weights=None, batch_size=None):
          self.X = numpy.load(filename, mmap_mode='r')
          if weights is None:
              self.weights = numpy.ones(self.X.shape[0])
          else:
              self.weights = numpy.load(weights, mmap_mode='r')
          if batch_size is None:
              self.batch_size = self.X.shape[0]
          else:
              self.batch_size = batch_size

      def __len__(self):
          return len(self.X)
  \<close>
  The object is the record of its three attributes. The optional arguments are
  options, \<open>None\<close> for Python's \<^verbatim>\<open>None\<close>; \<^verbatim>\<open>weights\<close> is a file name,
  as it is handed to \<^verbatim>\<open>numpy.load\<close>. The batch size is an integer of either
  sign, as nothing in the constructor restricts it; a batch size that is no
  integer, which a slice refuses, is outside the model.
\<close>

record MemoryMapGenerator =
  X :: ndarray
  weights :: ndarray
  batch_size :: int

definition MemoryMapGenerator_init ::
  "disk \<Rightarrow> string \<Rightarrow> string option \<Rightarrow> int option \<Rightarrow> error + MemoryMapGenerator" where
  "MemoryMapGenerator_init fs filename weights_arg batch_size_arg =
     (case numpy_load fs filename of
        Inl e \<Rightarrow> Inl e
      | Inr x \<Rightarrow>
          (case (case weights_arg of
                   None \<Rightarrow> Inr (numpy_ones (length x))
                 | Some w \<Rightarrow> numpy_load fs w) of
             Inl e \<Rightarrow> Inl e
           | Inr ws \<Rightarrow>
               Inr \<lparr>X = x, weights = ws,
                    batch_size = (case batch_size_arg of
                                    None \<Rightarrow> int (length x)
                                  | Some b \<Rightarrow> b)\<rparr>))"

definition MemoryMapGenerator_len :: "MemoryMapGenerator \<Rightarrow> int" where
  "MemoryMapGenerator_len self = int (length (X self))"

text \<open>
  \<^verbatim>\<open>
      def batches(self):
          start, end = 0, self.batch_size
          iteration = 0

          while start < len(self):
              yield self.X[start:end], self.weights[start:end]

              start += self.batch_size
              end += self.batch_size
              iteration += 1
  \<close>
  \<^verbatim>\<open>batches\<close> is a generator function: a call runs none of the body and hands
  back a generator-iterator, whose frame holds the local variables. The frame is
  \<open>Created\<close> before the first \<^verbatim>\<open>next\<close>, \<open>Suspended start end iteration\<close> while
  it waits at the \<^verbatim>\<open>yield\<close>, and \<open>Finished\<close> once the loop has ended.
\<close>

datatype frame = Created | Suspended int int int | Finished

type_synonym batch = "ndarray \<times> ndarray"

definition batches_call :: "MemoryMapGenerator \<Rightarrow> frame" where
  "batches_call self = Created"

text \<open>
  The loop test and the \<^verbatim>\<open>yield\<close>: with the locals at the given values, either
  the pair of slices is yielded and the frame suspends, or the loop ends
  (\<open>None\<close> is \<^verbatim>\<open>StopIteration\<close>).
\<close>

definition batches_loop ::
  "MemoryMapGenerator \<Rightarrow> int \<Rightarrow> int \<Rightarrow> int \<Rightarrow> batch option \<times> frame" where
  "batches_loop self start end iteration =
     (if start < MemoryMapGenerator_len self
      then (Some (py_slice (X self) start end, py_slice (weights self) start end),
            Suspended start end iteration)
      else (None, Finished))"

text \<open>
  One \<^verbatim>\<open>next\<close> on the generator-iterator: a created frame runs the two
  assignments and enters the loop, a suspended frame runs the three increments and
  re-enters the loop, a finished frame raises \<^verbatim>\<open>StopIteration\<close> again.
\<close>

fun batches_next :: "MemoryMapGenerator \<Rightarrow> frame \<Rightarrow> batch option \<times> frame" where
  "batches_next self Created = batches_loop self 0 (batch_size self) 0"
| "batches_next self (Suspended start end iteration) =
     batches_loop self (start + batch_size self) (end + batch_size self) (iteration + 1)"
| "batches_next self Finished = (None, Finished)"

text \<open>The frame after \<open>k\<close> calls of \<^verbatim>\<open>next\<close>, and what the following call yields.\<close>

fun batches_advance :: "MemoryMapGenerator \<Rightarrow> nat \<Rightarrow> frame \<Rightarrow> frame" where
  "batches_advance self 0 fr = fr"
| "batches_advance self (Suc k) fr = snd (batches_next self (batches_advance self k fr))"

definition batches_nth :: "MemoryMapGenerator \<Rightarrow> nat \<Rightarrow> batch option" where
  "batches_nth self k = fst (batches_next self (batches_advance self k (batches_call self)))"

text \<open>
  Exhausting a generator-iterator, as \<^verbatim>\<open>list(it)\<close> or a \<^verbatim>\<open>for\<close> loop does:
  \<^verbatim>\<open>next\<close> is called until \<^verbatim>\<open>StopIteration\<close>. The result is the list of the
  yielded batches with the frame left behind, and \<open>None\<close> when the calls never
  end.
\<close>

partial_function (option) exhaust ::
  "MemoryMapGenerator \<Rightarrow> frame \<Rightarrow> (batch list \<times> frame) option" where
  "exhaust self fr =
     (case batches_next self fr of
        (None, fr') \<Rightarrow> Some ([], fr')
      | (Some b, fr') \<Rightarrow>
          do { (bs, fr'') \<leftarrow> exhaust self fr'; Some (b # bs, fr'') })"

declare exhaust.simps [code]

text \<open>One epoch: \<^verbatim>\<open>list(self.batches())\<close>.\<close>

definition batches :: "MemoryMapGenerator \<Rightarrow> batch list option" where
  "batches self = map_option fst (exhaust self (batches_call self))"

subsection \<open>The generator-iterators in a store\<close>

text \<open>
  The same method once more, with the state it runs in made explicit. The store
  holds the attributes of the object \<^verbatim>\<open>self\<close> and the frames of all
  generator-iterators made so far; an iterator is known by the position of its
  frame. Every statement of the body is an update of the store: the assignments
  to \<^verbatim>\<open>start\<close>, \<^verbatim>\<open>end\<close> and \<^verbatim>\<open>iteration\<close> write the frame of the running
  iterator, and the body has no assignment to an attribute of \<^verbatim>\<open>self\<close>.
\<close>

record store =
  obj :: MemoryMapGenerator
  frames :: "frame list"

text \<open>\<^verbatim>\<open>it = self.batches()\<close>: a new frame, not yet started, and its position.\<close>

definition batches_call_st :: "store \<Rightarrow> nat \<times> store" where
  "batches_call_st s = (length (frames s), s\<lparr>frames := frames s @ [Created]\<rparr>)"

text \<open>The loop test and the \<^verbatim>\<open>yield\<close> of the iterator \<open>it\<close>.\<close>

definition batches_loop_st ::
  "nat \<Rightarrow> int \<Rightarrow> int \<Rightarrow> int \<Rightarrow> store \<Rightarrow> batch option \<times> store" where
  "batches_loop_st it start end iteration s =
     (if start < MemoryMapGenerator_len (obj s)
      then (Some (py_slice (X (obj s)) start end, py_slice (weights (obj s)) start end),
            s\<lparr>frames := (frames s)[it := Suspended start end iteration]\<rparr>)
      else (None, s\<lparr>frames := (frames s)[it := Finished]\<rparr>))"

text \<open>
  \<^verbatim>\<open>next(it)\<close>. An iterator is always a position that \<open>batches_call_st\<close> has
  handed out; for any other number, which no program can hold, nothing happens.
\<close>

definition batches_next_st :: "nat \<Rightarrow> store \<Rightarrow> batch option \<times> store" where
  "batches_next_st it s =
     (if it < length (frames s)
      then (case frames s ! it of
              Created \<Rightarrow> batches_loop_st it 0 (batch_size (obj s)) 0 s
            | Suspended start end iteration \<Rightarrow>
                batches_loop_st it (start + batch_size (obj s)) (end + batch_size (obj s))
                  (iteration + 1) s
            | Finished \<Rightarrow> (None, s))
      else (None, s))"

text \<open>\<^verbatim>\<open>list(it)\<close>, and one epoch \<^verbatim>\<open>list(self.batches())\<close>, in the store.\<close>

partial_function (option) exhaust_st :: "nat \<Rightarrow> store \<Rightarrow> (batch list \<times> store) option" where
  "exhaust_st it s =
     (case batches_next_st it s of
        (None, s') \<Rightarrow> Some ([], s')
      | (Some b, s') \<Rightarrow>
          do { (bs, s'') \<leftarrow> exhaust_st it s'; Some (b # bs, s'') })"

declare exhaust_st.simps [code]

definition batches_st :: "store \<Rightarrow> (batch list \<times> store) option" where
  "batches_st s = (case batches_call_st s of (it, s') \<Rightarrow> exhaust_st it s')"

section \<open>Properties\<close>

subsection \<open>Slices\<close>

lemma adjust_index_min: "0 \<le> n \<Longrightarrow> adjust_index n (min e n) = adjust_index n e"
  by (simp add: adjust_index_def min_def)

lemma py_slice_min: "py_slice a s (min e (int (length a))) = py_slice a s e"
  by (simp add: py_slice_def adjust_index_min)

lemma py_slice_window:
  "py_slice a (int i) (int j) = take (j - i) (drop i a)"
  by (auto simp: py_slice_def adjust_index_def Let_def min_def max_def nat_diff_distrib')

lemma length_py_slice:
  "length (py_slice a s e) = nat (adjust_index (int (length a)) e - adjust_index (int (length a)) s)"
  by (auto simp: py_slice_def adjust_index_def Let_def min_def max_def)

lemma py_slice_replicate:
  "py_slice (replicate n x) s e = replicate (length (py_slice (replicate n x) s e)) x"
  by (simp add: py_slice_def Let_def)

subsection \<open>The frame after each call of next\<close>

lemma window_start_mono:
  fixes n b :: int
  assumes "0 < n" and "int (Suc k) * b < n"
  shows "int k * b < n"
proof (rule ccontr)
  assume "\<not> int k * b < n"
  then have ge: "n \<le> int k * b" by simp
  with assms(1) have "0 < int k * b" by linarith
  then have "0 < b" by (simp add: zero_less_mult_iff)
  then have "int k * b \<le> int (Suc k) * b" by (simp add: algebra_simps)
  with ge assms(2) show False by linarith
qed

lemma advance_Created:
  "batches_advance g (Suc k) Created =
     (if 0 < length (X g) \<and> int k * batch_size g < int (length (X g))
      then Suspended (int k * batch_size g) ((int k + 1) * batch_size g) (int k)
      else Finished)"
proof (induction k)
  case 0
  show ?case by (simp add: batches_loop_def MemoryMapGenerator_len_def)
next
  case (Suc k)
  let ?n = "int (length (X g))" and ?b = "batch_size g"
  show ?case
  proof (cases "0 < length (X g) \<and> int k * ?b < ?n")
    case True
    then have fr: "batches_advance g (Suc k) Created = Suspended (int k * ?b) ((int k + 1) * ?b) (int k)"
      using Suc.IH by simp
    have "batches_advance g (Suc (Suc k)) Created =
            snd (batches_next g (Suspended (int k * ?b) ((int k + 1) * ?b) (int k)))"
      by (simp only: batches_advance.simps(2) [of g "Suc k"] fr)
    then show ?thesis using True
      by (simp add: batches_loop_def MemoryMapGenerator_len_def algebra_simps)
  next
    case False
    then have fr: "batches_advance g (Suc k) Created = Finished"
      using Suc.IH by simp
    have "\<not> (0 < length (X g) \<and> int (Suc k) * ?b < ?n)"
    proof
      assume a: "0 < length (X g) \<and> int (Suc k) * ?b < ?n"
      with False have ge: "?n \<le> int k * ?b" by simp
      from a have "0 < ?n" by simp
      with ge have "0 < int k * ?b" by linarith
      then have "0 < ?b" by (simp add: zero_less_mult_iff)
      then have "int k * ?b \<le> int (Suc k) * ?b" by (simp add: algebra_simps)
      with ge a show False by linarith
    qed
    moreover have "batches_advance g (Suc (Suc k)) Created = snd (batches_next g Finished)"
      by (simp only: batches_advance.simps(2) [of g "Suc k"] fr)
    ultimately show ?thesis by simp
  qed
qed

lemma next_advance_Created:
  "batches_next g (batches_advance g k Created) =
     (if 0 < length (X g) \<and> int k * batch_size g < int (length (X g))
      then (Some (py_slice (X g) (int k * batch_size g) ((int k + 1) * batch_size g),
                  py_slice (weights g) (int k * batch_size g) ((int k + 1) * batch_size g)),
            Suspended (int k * batch_size g) ((int k + 1) * batch_size g) (int k))
      else (None, Finished))"
proof (cases k)
  case 0
  then show ?thesis by (simp add: batches_loop_def MemoryMapGenerator_len_def)
next
  case (Suc j)
  let ?n = "int (length (X g))" and ?b = "batch_size g"
  show ?thesis
  proof (cases "0 < length (X g) \<and> int j * ?b < ?n")
    case True
    then have "batches_advance g k Created = Suspended (int j * ?b) ((int j + 1) * ?b) (int j)"
      unfolding Suc advance_Created by simp
    then show ?thesis using True
      by (simp add: Suc batches_loop_def MemoryMapGenerator_len_def algebra_simps)
  next
    case False
    then have fr: "batches_advance g k Created = Finished"
      unfolding Suc advance_Created by simp
    have "\<not> (0 < length (X g) \<and> int k * ?b < ?n)"
      using False window_start_mono [of ?n j ?b] unfolding Suc by auto
    then show ?thesis by (simp add: fr)
  qed
qed

subsection \<open>Exhausting the generator-iterator\<close>

lemma advance_front:
  "batches_advance g (Suc k) fr = batches_advance g k (snd (batches_next g fr))"
  by (induction k) simp_all

lemma exhaust_Some:
  assumes "fst (batches_next g (batches_advance g m fr)) = None"
    and "\<forall>j<m. fst (batches_next g (batches_advance g j fr)) \<noteq> None"
  shows "exhaust g fr =
           Some (map (\<lambda>j. the (fst (batches_next g (batches_advance g j fr)))) [0..<m],
                 snd (batches_next g (batches_advance g m fr)))"
  using assms
proof (induction m arbitrary: fr)
  case 0
  then obtain fr' where "batches_next g fr = (None, fr')"
    by (cases "batches_next g fr") auto
  then show ?case by (subst exhaust.simps) simp
next
  case (Suc m)
  from Suc.prems(2) have "fst (batches_next g (batches_advance g 0 fr)) \<noteq> None" by blast
  then obtain b fr' where nx: "batches_next g fr = (Some b, fr')"
    by (cases "batches_next g fr") auto
  have a1: "fst (batches_next g (batches_advance g m fr')) = None"
    using Suc.prems(1) nx by (simp only: advance_front) simp
  have a2: "\<forall>j<m. fst (batches_next g (batches_advance g j fr')) \<noteq> None"
  proof (intro allI impI)
    fix j assume "j < m"
    then have "fst (batches_next g (batches_advance g (Suc j) fr)) \<noteq> None"
      using Suc.prems(2) by auto
    then show "fst (batches_next g (batches_advance g j fr')) \<noteq> None"
      using nx by (simp only: advance_front) simp
  qed
  have sh: "batches_advance g (Suc j) fr = batches_advance g j fr'" for j
    using nx by (simp only: advance_front) simp
  have "exhaust g fr = do { (bs, fr'') \<leftarrow> exhaust g fr'; Some (b # bs, fr'') }"
    by (subst exhaust.simps) (simp add: nx)
  also have "\<dots> = Some (b # map (\<lambda>j. the (fst (batches_next g (batches_advance g j fr')))) [0..<m],
                 snd (batches_next g (batches_advance g m fr')))"
    by (simp add: Suc.IH [OF a1 a2])
  also have "\<dots> = Some (map (\<lambda>j. the (fst (batches_next g (batches_advance g j fr)))) [0..<Suc m],
                 snd (batches_next g (batches_advance g (Suc m) fr)))"
    by (simp only: map_upt_Suc sh) (simp add: nx)
  finally show ?case .
qed

lemma exhaust_stops:
  assumes "exhaust g fr = Some r"
  shows "\<exists>k. fst (batches_next g (batches_advance g k fr)) = None"
proof (rule exhaust.raw_induct
    [where P = "\<lambda>g fr r. \<exists>k. fst (batches_next g (batches_advance g k fr)) = None",
      OF _ assms])
  fix ex g fr r
  assume IH: "\<And>g fr y. ex g fr = Some y \<Longrightarrow>
                 \<exists>k. fst (batches_next g (batches_advance g k fr)) = None"
    and body: "(case batches_next g fr of
                  (None, fr') \<Rightarrow> Some ([], fr')
                | (Some b, fr') \<Rightarrow> do { (bs, fr'') \<leftarrow> ex g fr'; Some (b # bs, fr'') }) = Some r"
  obtain o' fr' where nx: "batches_next g fr = (o', fr')"
    by (cases "batches_next g fr") auto
  show "\<exists>k. fst (batches_next g (batches_advance g k fr)) = None"
  proof (cases o')
    case None
    then have "fst (batches_next g (batches_advance g 0 fr)) = None" using nx by simp
    then show ?thesis by blast
  next
    case (Some b)
    with body nx obtain y where "ex g fr' = Some y"
      by (auto split: Option.bind_splits)
    from IH [OF this] obtain k where "fst (batches_next g (batches_advance g k fr')) = None" ..
    then have "fst (batches_next g (batches_advance g (Suc k) fr)) = None"
      using nx by (simp only: advance_front) simp
    then show ?thesis by blast
  qed
qed

lemma next_None_Finished:
  "fst (batches_next g fr) = None \<Longrightarrow> snd (batches_next g fr) = Finished"
  by (cases fr) (auto simp: batches_loop_def split: if_splits)

lemma batches_nth_eq:
  "batches_nth g k =
     (if 0 < length (X g) \<and> int k * batch_size g < int (length (X g))
      then Some (py_slice (X g) (int k * batch_size g) ((int k + 1) * batch_size g),
                 py_slice (weights g) (int k * batch_size g) ((int k + 1) * batch_size g))
      else None)"
  by (simp add: batches_nth_def batches_call_def next_advance_Created)

lemma exhaust_batches_nth:
  assumes "batches_nth g m = None" and "\<forall>j<m. batches_nth g j \<noteq> None"
  shows "exhaust g (batches_call g) = Some (map (\<lambda>j. the (batches_nth g j)) [0..<m], Finished)"
proof -
  have "snd (batches_next g (batches_advance g m (batches_call g))) = Finished"
    using assms(1) unfolding batches_nth_def by (rule next_None_Finished)
  then show ?thesis
    using exhaust_Some [of g m "batches_call g"] assms
    unfolding batches_nth_def by simp
qed

lemma exhaust_least:
  assumes "exhaust g (batches_call g) = Some r"
  shows "\<exists>m. batches_nth g m = None \<and> (\<forall>j<m. batches_nth g j \<noteq> None) \<and>
             r = (map (\<lambda>j. the (batches_nth g j)) [0..<m], Finished)"
proof -
  from exhaust_stops [OF assms] have ex: "\<exists>k. batches_nth g k = None"
    unfolding batches_nth_def .
  define m where "m = (LEAST k. batches_nth g k = None)"
  have m1: "batches_nth g m = None"
    unfolding m_def using ex by (rule LeastI_ex)
  have m2: "\<forall>j<m. batches_nth g j \<noteq> None"
    unfolding m_def using not_less_Least by blast
  from exhaust_batches_nth [OF m1 m2] assms
  have "r = (map (\<lambda>j. the (batches_nth g j)) [0..<m], Finished)" by simp
  with m1 m2 show ?thesis by blast
qed

subsection \<open>Counting and joining the windows\<close>

lemma ceiling_windows:
  fixes n b :: int
  assumes "0 < b" and "0 \<le> n"
  defines "c \<equiv> \<lceil>real_of_int n / real_of_int b\<rceil>"
  shows "0 \<le> c" and "n \<le> c * b" and "(c - 1) * b < n"
proof -
  have q: "0 < real_of_int b" using assms(1) by simp
  have "real_of_int n \<le> of_int c * real_of_int b"
    unfolding c_def using q by (rule ceiling_divide_upper)
  then have "real_of_int n \<le> real_of_int (c * b)" by simp
  then show 1: "n \<le> c * b" by (simp only: of_int_le_iff)
  have "(of_int c - 1) * real_of_int b < real_of_int n"
    unfolding c_def using q by (rule ceiling_divide_lower)
  then have "real_of_int ((c - 1) * b) < real_of_int n" by simp
  then show "(c - 1) * b < n" by (simp only: of_int_less_iff)
  have "0 \<le> real_of_int n / real_of_int b" using assms by simp
  then have "- 1 < real_of_int n / real_of_int b" by linarith
  then show "0 \<le> c" unfolding c_def by simp
qed

lemma count_windows:
  fixes n b :: int
  assumes "0 < b" and "0 \<le> n"
  defines "m \<equiv> nat \<lceil>real_of_int n / real_of_int b\<rceil>"
  shows "n \<le> int m * b" and "j < m \<Longrightarrow> int j * b < n"
proof -
  note c = ceiling_windows [OF assms(1,2)]
  have im: "int m = \<lceil>real_of_int n / real_of_int b\<rceil>"
    unfolding m_def using c(1) by simp
  show "n \<le> int m * b" using c(2) by (simp add: im)
  assume "j < m"
  then have "int j \<le> int m - 1" by simp
  then have "int j * b \<le> (int m - 1) * b" using assms(1) by (simp only: mult_right_mono less_imp_le)
  also have "\<dots> < n" using c(3) by (simp add: im)
  finally show "int j * b < n" .
qed

lemma batches_positive:
  assumes "0 < batch_size g"
  defines "m \<equiv> nat \<lceil>real (length (X g)) / real_of_int (batch_size g)\<rceil>"
  shows "exhaust g (batches_call g) =
           Some (map (\<lambda>j. (py_slice (X g) (int j * batch_size g) ((int j + 1) * batch_size g),
                           py_slice (weights g) (int j * batch_size g) ((int j + 1) * batch_size g)))
                   [0..<m], Finished)"
proof -
  let ?n = "int (length (X g))" and ?b = "batch_size g"
  have m: "m = nat \<lceil>real_of_int ?n / real_of_int ?b\<rceil>" by (simp add: m_def)
  have up: "?n \<le> int m * ?b" unfolding m by (rule count_windows(1)) (use assms in simp_all)
  have lo: "int j * ?b < ?n" if "j < m" for j
    using that unfolding m by (rule count_windows(2) [rotated 2]) (use assms in simp_all)
  have none: "batches_nth g m = None" using up by (simp add: batches_nth_eq)
  have some: "\<forall>j<m. batches_nth g j \<noteq> None"
  proof (intro allI impI)
    fix j assume "j < m"
    from lo [OF this] have "int j * ?b < ?n" .
    moreover have "0 \<le> int j * ?b" using assms(1) by simp
    ultimately have "0 < length (X g) \<and> int j * ?b < ?n" by auto
    then show "batches_nth g j \<noteq> None" by (simp add: batches_nth_eq)
  qed
  have "map (\<lambda>j. the (batches_nth g j)) [0..<m] =
        map (\<lambda>j. (py_slice (X g) (int j * ?b) ((int j + 1) * ?b),
                   py_slice (weights g) (int j * ?b) ((int j + 1) * ?b))) [0..<m]"
  proof (rule map_cong [OF refl])
    fix j assume "j \<in> set [0..<m]"
    then have "j < m" by simp
    from lo [OF this] have "int j * ?b < ?n" .
    moreover have "0 \<le> int j * ?b" using assms(1) by simp
    ultimately have "0 < length (X g) \<and> int j * ?b < ?n" by auto
    then show "the (batches_nth g j) = (py_slice (X g) (int j * ?b) ((int j + 1) * ?b),
                   py_slice (weights g) (int j * ?b) ((int j + 1) * ?b))"
      by (simp add: batches_nth_eq)
  qed
  with exhaust_batches_nth [OF none some] show ?thesis by simp
qed

lemma concat_chunks:
  "concat (map (\<lambda>j. take B (drop (j * B) xs)) [0..<m]) = take (m * B) xs"
proof (induction m)
  case 0
  show ?case by simp
next
  case (Suc m)
  have "take (m * B) xs @ take B (drop (m * B) xs) = take (m * B + B) xs"
    by (simp add: take_add)
  then show ?case using Suc by (simp add: add.commute)
qed

lemma py_slice_chunk:
  "py_slice xs (int j * int B) ((int j + 1) * int B) = take B (drop (j * B) xs)"
proof -
  have "py_slice xs (int (j * B)) (int ((j + 1) * B)) = take ((j + 1) * B - j * B) (drop (j * B) xs)"
    by (rule py_slice_window)
  then show ?thesis by (simp add: algebra_simps)
qed

lemma take_drop_nth:
  "take a (drop s xs) = map ((!) xs) [s ..< min (s + a) (length xs)]"
proof (rule nth_equalityI)
  show "length (take a (drop s xs)) = length (map ((!) xs) [s ..< min (s + a) (length xs)])"
    by simp
next
  fix i assume "i < length (take a (drop s xs))"
  then have i: "i < a" "s + i < length xs" by auto
  then have lt: "s + i < min (s + a) (length xs)" by simp
  then have "i < length [s ..< min (s + a) (length xs)]" by (simp only: length_upt)
  then have "map ((!) xs) [s ..< min (s + a) (length xs)] ! i =
             xs ! ([s ..< min (s + a) (length xs)] ! i)"
    by (rule nth_map)
  also have "[s ..< min (s + a) (length xs)] ! i = s + i"
    using lt by (rule nth_upt)
  finally have "map ((!) xs) [s ..< min (s + a) (length xs)] ! i = xs ! (s + i)" .
  moreover have "take a (drop s xs) ! i = xs ! (s + i)" using i by simp
  ultimately show "take a (drop s xs) ! i = map ((!) xs) [s ..< min (s + a) (length xs)] ! i"
    by simp
qed

subsection \<open>Empty datasets, default arguments, endless traversals\<close>

lemma batches_empty:
  assumes "X g = []"
  shows "exhaust g (batches_call g) = Some ([], Finished)"
proof -
  have "batches_nth g 0 = None" using assms by (simp add: batches_nth_eq)
  from exhaust_batches_nth [OF this] show ?thesis by simp
qed

lemma init_default_batch_size:
  "MemoryMapGenerator_init fs filename w None = Inr g \<Longrightarrow> batch_size g = int (length (X g))"
  by (auto simp: MemoryMapGenerator_init_def split: sum.splits option.splits)

lemma init_default_weights:
  "MemoryMapGenerator_init fs filename None b = Inr g \<Longrightarrow> weights g = numpy_ones (length (X g))"
  by (auto simp: MemoryMapGenerator_init_def split: sum.splits option.splits)

lemma length_py_slice_same:
  "length a = length b \<Longrightarrow> length (py_slice a s e) = length (py_slice b s e)"
  by (simp add: length_py_slice)

lemma ones_slice:
  assumes "weights g = numpy_ones (length (X g))"
  shows "py_slice (weights g) s e = numpy_ones (length (py_slice (X g) s e))"
proof -
  have "py_slice (weights g) s e = replicate (length (py_slice (weights g) s e)) (Scalar 1)"
    unfolding assms numpy_ones_def by (rule py_slice_replicate)
  moreover have "length (py_slice (weights g) s e) = length (py_slice (X g) s e)"
    by (rule length_py_slice_same) (simp add: assms numpy_ones_def)
  ultimately show ?thesis by (simp add: numpy_ones_def)
qed

lemma batches_None_iff:
  "batches g = None \<longleftrightarrow> (\<forall>k. batches_nth g k \<noteq> None)"
proof
  assume n: "batches g = None"
  show "\<forall>k. batches_nth g k \<noteq> None"
  proof (rule ccontr)
    assume "\<not> (\<forall>k. batches_nth g k \<noteq> None)"
    then have ex: "\<exists>k. batches_nth g k = None" by (simp only: not_all not_not)
    define m where "m = (LEAST k. batches_nth g k = None)"
    have m1: "batches_nth g m = None" unfolding m_def using ex by (rule LeastI_ex)
    have m2: "\<forall>j<m. batches_nth g j \<noteq> None" unfolding m_def using not_less_Least by blast
    from exhaust_batches_nth [OF m1 m2] n show False by (simp add: batches_def)
  qed
next
  assume a: "\<forall>k. batches_nth g k \<noteq> None"
  show "batches g = None"
  proof (rule ccontr)
    assume "batches g \<noteq> None"
    then obtain r where "exhaust g (batches_call g) = Some r" by (auto simp: batches_def)
    from exhaust_stops [OF this] obtain k where k: "batches_nth g k = None"
      unfolding batches_nth_def ..
    from a have "batches_nth g k \<noteq> None" by (rule spec)
    from this k show False by (rule notE)
  qed
qed

subsection \<open>Slices as rows of an index window\<close>

lemma py_slice_rows_nonneg:
  assumes "0 \<le> s" and "0 \<le> e"
  shows "py_slice a s e = map ((!) a) [nat s ..< nat (min e (int (length a)))]"
proof -
  obtain i j where s: "s = int i" and e: "e = int j"
    using assms by (metis nat_0_le)
  have "py_slice a (int i) (int j) = take (j - i) (drop i a)" by (rule py_slice_window)
  also have "\<dots> = map ((!) a) [i ..< min (i + (j - i)) (length a)]" by (rule take_drop_nth)
  also have "[i ..< min (i + (j - i)) (length a)] = [i ..< min j (length a)]"
    by (cases "i \<le> j") simp_all
  finally show ?thesis by (simp add: s e min_def)
qed

lemma py_slice_rows_first_neg:
  assumes "b < 0"
  shows "py_slice a 0 b = map ((!) a) [0 ..< nat (int (length a) + b)]"
proof -
  let ?n = "int (length a)"
  have s: "adjust_index ?n 0 = 0" by (simp add: adjust_index_def)
  have e: "adjust_index ?n b = max (b + ?n) 0" using assms by (simp add: adjust_index_def)
  have "nat (max (b + ?n) 0 - 0) = nat (?n + b)" by (simp add: max_def add.commute)
  then have "py_slice a 0 b = take (nat (?n + b)) (drop 0 a)"
    unfolding py_slice_def Let_def s e by simp
  also have "\<dots> = map ((!) a) [0 ..< min (0 + nat (?n + b)) (length a)]"
    by (rule take_drop_nth)
  also have "min (0 + nat (?n + b)) (length a) = nat (?n + b)"
  proof -
    have "nat (?n + b) \<le> length a" using assms by linarith
    then show ?thesis by simp
  qed
  finally show ?thesis .
qed

lemma py_slice_rows_later_neg:
  assumes "b < 0" and "0 < k"
  shows "py_slice a (int k * b) ((int k + 1) * b) = []"
proof -
  have "(int k + 1) * b \<le> int k * b" using assms(1) by (simp add: algebra_simps)
  moreover have "int k * b < 0" using assms by (simp add: mult_pos_neg)
  moreover have "(int k + 1) * b < 0" using assms by (simp add: mult_pos_neg)
  ultimately show ?thesis
    by (simp add: py_slice_def adjust_index_def Let_def)
qed

lemma py_slice_rows:
  "py_slice a (int k * b) ((int k + 1) * b) =
     (if 0 \<le> b
      then map ((!) a) [nat (int k * b) ..< nat (min ((int k + 1) * b) (int (length a)))]
      else if k = 0 then map ((!) a) [0 ..< nat (int (length a) + b)] else [])"
proof (cases "0 \<le> b")
  case True
  then have "0 \<le> int k * b" "0 \<le> (int k + 1) * b" by simp_all
  from py_slice_rows_nonneg [OF this] True show ?thesis by simp
next
  case False
  then have neg: "b < 0" by simp
  show ?thesis
  proof (cases "k = 0")
    case True
    with neg py_slice_rows_first_neg [OF neg, of a] show ?thesis by simp
  next
    case False
    then have "0 < k" by simp
    from py_slice_rows_later_neg [OF neg this, of a] neg False show ?thesis by simp
  qed
qed

subsection \<open>The store agrees with the frame-passing functions\<close>

lemma next_st_eq:
  fixes s :: store
  assumes "it < length (frames s)"
  shows "batches_next_st it s =
           (fst (batches_next (obj s) (frames s ! it)),
            s\<lparr>frames := (frames s)[it := snd (batches_next (obj s) (frames s ! it))]\<rparr>)"
proof (cases "frames s ! it")
  case Created
  then show ?thesis using assms
    by (simp add: batches_next_st_def batches_loop_st_def batches_loop_def
        MemoryMapGenerator_len_def)
next
  case (Suspended a e i)
  then show ?thesis using assms
    by (simp add: batches_next_st_def batches_loop_st_def batches_loop_def
        MemoryMapGenerator_len_def)
next
  case Finished
  then have "(frames s)[it := Finished] = frames s" by (metis list_update_id)
  then show ?thesis using assms Finished by (simp add: batches_next_st_def)
qed

lemma exhaust_st_eq:
  assumes "exhaust g fr = Some r"
  shows "\<forall>(s::store) it. obj s = g \<and> it < length (frames s) \<and> frames s ! it = fr \<longrightarrow>
           exhaust_st it s = Some (fst r, s\<lparr>frames := (frames s)[it := snd r]\<rparr>)"
proof (rule exhaust.raw_induct
    [where P = "\<lambda>g fr r. \<forall>(s::store) it. obj s = g \<and> it < length (frames s) \<and> frames s ! it = fr \<longrightarrow>
           exhaust_st it s = Some (fst r, s\<lparr>frames := (frames s)[it := snd r]\<rparr>)",
      OF _ assms])
  fix ex g fr r
  assume IH: "\<And>g fr y. ex g fr = Some y \<Longrightarrow>
                 \<forall>(s::store) it. obj s = g \<and> it < length (frames s) \<and> frames s ! it = fr \<longrightarrow>
                   exhaust_st it s = Some (fst y, s\<lparr>frames := (frames s)[it := snd y]\<rparr>)"
    and body: "(case batches_next g fr of
                  (None, fr') \<Rightarrow> Some ([], fr')
                | (Some b, fr') \<Rightarrow> do { (bs, fr'') \<leftarrow> ex g fr'; Some (b # bs, fr'') }) = Some r"
  obtain o' fr' where nx: "batches_next g fr = (o', fr')"
    by (cases "batches_next g fr") auto
  show "\<forall>(s::store) it. obj s = g \<and> it < length (frames s) \<and> frames s ! it = fr \<longrightarrow>
           exhaust_st it s = Some (fst r, s\<lparr>frames := (frames s)[it := snd r]\<rparr>)"
  proof (intro allI impI, elim conjE)
    fix s :: store and it
    assume g: "obj s = g" and it: "it < length (frames s)" and fr: "frames s ! it = fr"
    let ?s' = "s\<lparr>frames := (frames s)[it := fr']\<rparr>"
    have st: "batches_next_st it s = (o', ?s')"
      by (simp add: next_st_eq [OF it] g fr nx)
    show "exhaust_st it s = Some (fst r, s\<lparr>frames := (frames s)[it := snd r]\<rparr>)"
    proof (cases o')
      case None
      with body nx have "r = ([], fr')" by simp
      then show ?thesis by (subst exhaust_st.simps) (simp add: st None)
    next
      case (Some b)
      with body nx obtain y where y: "ex g fr' = Some y" and r: "r = (b # fst y, snd y)"
        by (auto split: Option.bind_splits)
      have "obj ?s' = g \<and> it < length (frames ?s') \<and> frames ?s' ! it = fr'"
        using g it by simp
      with IH [OF y] have "exhaust_st it ?s' =
          Some (fst y, ?s'\<lparr>frames := (frames ?s')[it := snd y]\<rparr>)" by blast
      then have "exhaust_st it ?s' = Some (fst y, s\<lparr>frames := (frames s)[it := snd y]\<rparr>)"
        by simp
      then show ?thesis by (subst exhaust_st.simps) (simp add: st Some r)
    qed
  qed
qed

lemma batches_st_eq:
  fixes s :: store
  assumes "exhaust (obj s) Created = Some (bs, fr)"
  shows "batches_st s = Some (bs, s\<lparr>frames := frames s @ [fr]\<rparr>)"
proof -
  let ?s1 = "s\<lparr>frames := frames s @ [Created]\<rparr>" and ?it = "length (frames s)"
  have "obj ?s1 = obj s \<and> ?it < length (frames ?s1) \<and> frames ?s1 ! ?it = Created" by simp
  with exhaust_st_eq [OF assms] have
    "exhaust_st ?it ?s1 = Some (fst (bs, fr), ?s1\<lparr>frames := (frames ?s1)[?it := snd (bs, fr)]\<rparr>)"
    by blast
  then show ?thesis by (simp add: batches_st_def batches_call_st_def)
qed

lemma epoch_chunks:
  assumes "0 < batch_size g \<or> X g = []"
  shows "exhaust g Created =
           Some (map (\<lambda>j. (take (nat (batch_size g)) (drop (j * nat (batch_size g)) (X g)),
                           take (nat (batch_size g)) (drop (j * nat (batch_size g)) (weights g))))
                   [0..<nat \<lceil>real (length (X g)) / real_of_int (batch_size g)\<rceil>],
                 Finished)"
proof (cases "0 < batch_size g")
  case True
  define B where "B = nat (batch_size g)"
  have b: "batch_size g = int B" using True by (simp add: B_def)
  show ?thesis
    using batches_positive [OF True]
    unfolding batches_call_def B_def [symmetric]
    by (simp add: b py_slice_chunk)
next
  case False
  with assms have e: "X g = []" by simp
  from batches_empty [OF e] show ?thesis by (simp add: batches_call_def e)
qed


section \<open>The claims\<close>

text \<open>
  Claim C1. For every dataset of length \<open>n\<close> and every batch size \<open>b\<close>, the
  \<open>k\<close>-th \<^verbatim>\<open>next\<close> on a fresh traversal of \<^verbatim>\<open>batches()\<close> (counting from 0)
  finds \<open>start = k * b\<close> and \<open>end = (k + 1) * b\<close>: the traversal starts at 0 with
  a window of width \<open>b\<close>, and both bounds advance by \<open>b\<close> at each step. It yields
  a batch as long as the loop test \<open>start < n\<close> has held, that is when the
  dataset is not empty (the test at \<open>start = 0\<close>) and \<open>k * b < n\<close>, and has stopped
  otherwise. For \<open>b \<ge> 0\<close> the batch is the pair of the rows of \<open>X\<close> at the indices
  \<open>k * b \<le> i < min ((k + 1) * b, n)\<close>, the window clamped to the dataset boundary,
  and of the weights at the same indices, clamped to the length of the weight
  array. For \<open>b < 0\<close> the slice bounds count from the end: the first batch is
  all but the last \<open>- b\<close> rows, and every later batch is empty.
\<close>

theorem batches_walks_windows:
  "batches_next self (batches_advance self k (batches_call self)) =
     (let b = batch_size self;
          window = (\<lambda>a. if 0 \<le> b
                         then map ((!) a)
                                [nat (int k * b) ..< nat (min ((int k + 1) * b) (int (length a)))]
                         else if k = 0 then map ((!) a) [0 ..< nat (int (length a) + b)]
                         else [])
      in if X self \<noteq> [] \<and> int k * b < int (length (X self))
         then (Some (window (X self), window (weights self)),
               Suspended (int k * b) (int k * b + b) (int k))
         else (None, Finished))"
  unfolding Let_def batches_call_def next_advance_Created py_slice_rows
  by (simp add: algebra_simps)

theorem batches_walks_windows_witness:
  "batches_next \<lparr>X = [Scalar 10, Scalar 20, Scalar 30], weights = [Scalar 1, Scalar 1, Scalar 1],
                 batch_size = 2\<rparr>
     (batches_advance \<lparr>X = [Scalar 10, Scalar 20, Scalar 30],
                       weights = [Scalar 1, Scalar 1, Scalar 1], batch_size = 2\<rparr> 0
        (batches_call \<lparr>X = [Scalar 10, Scalar 20, Scalar 30],
                       weights = [Scalar 1, Scalar 1, Scalar 1], batch_size = 2\<rparr>)) =
     (Some ([Scalar 10, Scalar 20], [Scalar 1, Scalar 1]), Suspended 0 2 0) \<and>
   batches_next \<lparr>X = [Scalar 10, Scalar 20, Scalar 30], weights = [Scalar 1, Scalar 1, Scalar 1],
                 batch_size = 2\<rparr>
     (batches_advance \<lparr>X = [Scalar 10, Scalar 20, Scalar 30],
                       weights = [Scalar 1, Scalar 1, Scalar 1], batch_size = 2\<rparr> 1
        (batches_call \<lparr>X = [Scalar 10, Scalar 20, Scalar 30],
                       weights = [Scalar 1, Scalar 1, Scalar 1], batch_size = 2\<rparr>)) =
     (Some ([Scalar 30], [Scalar 1]), Suspended 2 4 1) \<and>
   batches_next \<lparr>X = [Scalar 10, Scalar 20, Scalar 30], weights = [Scalar 1, Scalar 1, Scalar 1],
                 batch_size = 2\<rparr>
     (batches_advance \<lparr>X = [Scalar 10, Scalar 20, Scalar 30],
                       weights = [Scalar 1, Scalar 1, Scalar 1], batch_size = 2\<rparr> 2
        (batches_call \<lparr>X = [Scalar 10, Scalar 20, Scalar 30],
                       weights = [Scalar 1, Scalar 1, Scalar 1], batch_size = 2\<rparr>)) =
     (None, Finished)"
proof -
  let ?G = "\<lparr>X = [Scalar 10, Scalar 20, Scalar 30], weights = [Scalar 1, Scalar 1, Scalar 1],
             batch_size = 2\<rparr>"
  have 0: "batches_next ?G (batches_advance ?G 0 (batches_call ?G)) =
             (Some ([Scalar 10, Scalar 20], [Scalar 1, Scalar 1]), Suspended 0 2 0)"
    unfolding batches_walks_windows [of ?G 0] by (simp add: eval_nat_numeral)
  have 1: "batches_next ?G (batches_advance ?G 1 (batches_call ?G)) =
             (Some ([Scalar 30], [Scalar 1]), Suspended 2 4 1)"
    unfolding batches_walks_windows [of ?G 1] by (simp add: eval_nat_numeral)
  have 2: "batches_next ?G (batches_advance ?G 2 (batches_call ?G)) = (None, Finished)"
    unfolding batches_walks_windows [of ?G 2] by (simp add: eval_nat_numeral)
  from 0 1 2 show ?thesis by (intro conjI)
qed

text \<open>
  Claim C2. For every batch size \<open>b \<ge> 1\<close> and every dataset length \<open>n\<close>, one
  call to \<^verbatim>\<open>batches()\<close> ends, yields exactly \<open>\<lceil>n / b\<rceil>\<close> batches, and the
  feature parts of the batches, joined in the order they are yielded, are the
  original dataset.
\<close>

theorem batches_count_roundtrip:
  assumes "1 \<le> batch_size self"
  shows "\<exists>bs. batches self = Some bs \<and>
           length bs = nat \<lceil>real (length (X self)) / real_of_int (batch_size self)\<rceil> \<and>
           concat (map fst bs) = X self"
proof -
  let ?b = "batch_size self" and ?n = "length (X self)"
  define B where "B = nat ?b"
  define m where "m = nat \<lceil>real ?n / real_of_int ?b\<rceil>"
  have b: "?b = int B" "0 < ?b" using assms by (simp_all add: B_def)
  define bs where "bs = map (\<lambda>j. (py_slice (X self) (int j * ?b) ((int j + 1) * ?b),
                           py_slice (weights self) (int j * ?b) ((int j + 1) * ?b))) [0..<m]"
  have ex: "batches self = Some bs"
    unfolding batches_def bs_def m_def by (simp add: batches_positive [OF b(2)])
  have "int ?n \<le> int m * ?b"
    unfolding m_def using count_windows(1) [of ?b "int ?n"] b(2) by simp
  then have cover: "?n \<le> m * B" unfolding b(1) by (simp only: of_nat_mult [symmetric] of_nat_le_iff)
  have "map fst bs = map (\<lambda>j. take B (drop (j * B) (X self))) [0..<m]"
    unfolding bs_def b(1) by (simp add: py_slice_chunk comp_def)
  then have "concat (map fst bs) = take (m * B) (X self)"
    by (simp only: concat_chunks)
  with cover have "concat (map fst bs) = X self" by simp
  moreover have "length bs = m" by (simp add: bs_def)
  ultimately show ?thesis using ex unfolding m_def by blast
qed

theorem batches_count_roundtrip_witness:
  "(1::int) \<le> 1000 \<and>
   (\<exists>bs. batches \<lparr>X = replicate 10000 (Row (replicate 70 (Scalar 0))),
                    weights = numpy_ones 10000, batch_size = 1000\<rparr> = Some bs \<and>
         length bs = 10 \<and>
         concat (map fst bs) = replicate 10000 (Row (replicate 70 (Scalar 0))))"
  using batches_count_roundtrip
    [of "\<lparr>X = replicate 10000 (Row (replicate 70 (Scalar 0))),
          weights = numpy_ones 10000, batch_size = 1000\<rparr>"]
  by simp


text \<open>
  Claim C3. For every batch size \<open>b \<ge> 1\<close>, the lengths of the feature slices of
  one epoch add up to the length of the dataset. The \<open>k\<close>-th feature slice holds
  the rows at the indices \<open>k * b \<le> i < min ((k + 1) * b, n)\<close>; these index windows
  are pairwise disjoint and their union is \<open>{0..<n}\<close>: no row is skipped and none
  occurs twice in an epoch.
\<close>

theorem batches_partition:
  assumes "1 \<le> batch_size self"
  shows "\<exists>bs. batches self = Some bs \<and>
           sum_list (map (\<lambda>(xs, ws). length xs) bs) = length (X self) \<and>
           (\<forall>k<length bs. fst (bs ! k) =
               map ((!) (X self))
                 [k * nat (batch_size self) ..<
                  min ((k + 1) * nat (batch_size self)) (length (X self))]) \<and>
           (\<forall>j<length bs. \<forall>k<length bs. j \<noteq> k \<longrightarrow>
               {j * nat (batch_size self) ..<
                  min ((j + 1) * nat (batch_size self)) (length (X self))} \<inter>
               {k * nat (batch_size self) ..<
                  min ((k + 1) * nat (batch_size self)) (length (X self))} = {}) \<and>
           (\<Union>k<length bs.
               {k * nat (batch_size self) ..<
                  min ((k + 1) * nat (batch_size self)) (length (X self))}) =
             {0..<length (X self)}"
proof -
  let ?b = "batch_size self" and ?n = "length (X self)"
  define B where "B = nat ?b"
  define m where "m = nat \<lceil>real ?n / real_of_int ?b\<rceil>"
  have b: "?b = int B" "0 < ?b" "0 < B" using assms by (simp_all add: B_def)
  define bs where "bs = map (\<lambda>j. (py_slice (X self) (int j * ?b) ((int j + 1) * ?b),
                           py_slice (weights self) (int j * ?b) ((int j + 1) * ?b))) [0..<m]"
  have ex: "batches self = Some bs"
    unfolding batches_def bs_def m_def by (simp add: batches_positive [OF b(2)])
  have len: "length bs = m" by (simp add: bs_def)
  have "int ?n \<le> int m * ?b"
    unfolding m_def using count_windows(1) [of ?b "int ?n"] b(2) by simp
  then have cover: "?n \<le> m * B" unfolding b(1) by (simp only: of_nat_mult [symmetric] of_nat_le_iff)
  have fsts: "map fst bs = map (\<lambda>j. take B (drop (j * B) (X self))) [0..<m]"
    unfolding bs_def b(1) by (simp add: py_slice_chunk comp_def)
  have "sum_list (map (\<lambda>(xs, ws). length xs) bs) = length (concat (map fst bs))"
    by (simp add: length_concat comp_def case_prod_unfold)
  also have "\<dots> = length (take (m * B) (X self))"
    by (simp only: fsts concat_chunks)
  also have "\<dots> = ?n" using cover by simp
  finally have total: "sum_list (map (\<lambda>(xs, ws). length xs) bs) = ?n" .
  have win: "\<forall>k<length bs. fst (bs ! k) = map ((!) (X self)) [k * B ..< min ((k + 1) * B) ?n]"
  proof (intro allI impI)
    fix k assume "k < length bs"
    then have k: "k < m" by (simp add: len)
    then have "fst (bs ! k) = map fst bs ! k" by (simp add: len)
    also have "\<dots> = take B (drop (k * B) (X self))"
      using k by (simp only: fsts) simp
    also have "\<dots> = map ((!) (X self)) [k * B ..< min (k * B + B) ?n]"
      by (rule take_drop_nth)
    finally show "fst (bs ! k) = map ((!) (X self)) [k * B ..< min ((k + 1) * B) ?n]"
      by (simp add: add.commute)
  qed
  have disj: "{j * B ..< min ((j + 1) * B) ?n} \<inter> {k * B ..< min ((k + 1) * B) ?n} = {}"
    if "j \<noteq> k" for j k
  proof -
    have aux: "{i * B ..< min ((i + 1) * B) ?n} \<inter> {l * B ..< min ((l + 1) * B) ?n} = {}"
      if "i < l" for i l
    proof -
      from that have "i + 1 \<le> l" by simp
      then have "(i + 1) * B \<le> l * B" by (rule mult_le_mono1)
      then show ?thesis by auto
    qed
    from that consider "j < k" | "k < j" by linarith
    then show ?thesis using aux [of j k] aux [of k j] by cases auto
  qed
  have union: "(\<Union>k<length bs. {k * B ..< min ((k + 1) * B) ?n}) = {0..<?n}"
  proof (rule set_eqI)
    fix i
    show "i \<in> (\<Union>k<length bs. {k * B ..< min ((k + 1) * B) ?n}) \<longleftrightarrow> i \<in> {0..<?n}"
    proof
      assume "i \<in> (\<Union>k<length bs. {k * B ..< min ((k + 1) * B) ?n})"
      then show "i \<in> {0..<?n}" by auto
    next
      assume "i \<in> {0..<?n}"
      then have i: "i < ?n" by simp
      let ?k = "i div B"
      have lo: "?k * B \<le> i" by simp
      have hi: "i < (?k + 1) * B" using b(3) by (simp add: dividend_less_div_times add.commute)
      have "?k * B < m * B" using lo i cover by linarith
      then have km: "?k < m" by simp
      have "i \<in> {?k * B ..< min ((?k + 1) * B) ?n}" using lo hi i by simp
      with km show "i \<in> (\<Union>k<length bs. {k * B ..< min ((k + 1) * B) ?n})"
        unfolding len by blast
    qed
  qed
  show ?thesis
    using ex total win disj union unfolding B_def by blast
qed

theorem batches_partition_witness:
  "1 \<le> batch_size 
      \<lparr>X = [Scalar 10, Scalar 20, Scalar 30], weights = numpy_ones 3, batch_size = 2\<rparr> \<and>
   (\<exists>bs. batches 
      \<lparr>X = [Scalar 10, Scalar 20, Scalar 30], weights = numpy_ones 3, batch_size = 2\<rparr> = Some bs \<and>
      sum_list (map (\<lambda>(xs, ws). length xs) bs) = length (X 
      \<lparr>X = [Scalar 10, Scalar 20, Scalar 30], weights = numpy_ones 3, batch_size = 2\<rparr>) \<and>
      (\<forall>k<length bs. fst (bs ! k) =
          map ((!) (X 
      \<lparr>X = [Scalar 10, Scalar 20, Scalar 30], weights = numpy_ones 3, batch_size = 2\<rparr>))
            [k * nat (batch_size 
      \<lparr>X = [Scalar 10, Scalar 20, Scalar 30], weights = numpy_ones 3, batch_size = 2\<rparr>) ..<
             min ((k + 1) * nat (batch_size 
      \<lparr>X = [Scalar 10, Scalar 20, Scalar 30], weights = numpy_ones 3, batch_size = 2\<rparr>)) (length (X 
      \<lparr>X = [Scalar 10, Scalar 20, Scalar 30], weights = numpy_ones 3, batch_size = 2\<rparr>))]) \<and>
      (\<forall>j<length bs. \<forall>k<length bs. j \<noteq> k \<longrightarrow>
          {j * nat (batch_size 
      \<lparr>X = [Scalar 10, Scalar 20, Scalar 30], weights = numpy_ones 3, batch_size = 2\<rparr>) ..<
             min ((j + 1) * nat (batch_size 
      \<lparr>X = [Scalar 10, Scalar 20, Scalar 30], weights = numpy_ones 3, batch_size = 2\<rparr>)) (length (X 
      \<lparr>X = [Scalar 10, Scalar 20, Scalar 30], weights = numpy_ones 3, batch_size = 2\<rparr>))} \<inter>
          {k * nat (batch_size 
      \<lparr>X = [Scalar 10, Scalar 20, Scalar 30], weights = numpy_ones 3, batch_size = 2\<rparr>) ..<
             min ((k + 1) * nat (batch_size 
      \<lparr>X = [Scalar 10, Scalar 20, Scalar 30], weights = numpy_ones 3, batch_size = 2\<rparr>)) (length (X 
      \<lparr>X = [Scalar 10, Scalar 20, Scalar 30], weights = numpy_ones 3, batch_size = 2\<rparr>))} = {}) \<and>
      (\<Union>k<length bs.
          {k * nat (batch_size 
      \<lparr>X = [Scalar 10, Scalar 20, Scalar 30], weights = numpy_ones 3, batch_size = 2\<rparr>) ..<
             min ((k + 1) * nat (batch_size 
      \<lparr>X = [Scalar 10, Scalar 20, Scalar 30], weights = numpy_ones 3, batch_size = 2\<rparr>)) (length (X 
      \<lparr>X = [Scalar 10, Scalar 20, Scalar 30], weights = numpy_ones 3, batch_size = 2\<rparr>))}) =
        {0..<length (X 
      \<lparr>X = [Scalar 10, Scalar 20, Scalar 30], weights = numpy_ones 3, batch_size = 2\<rparr>)})"
proof -
  have h: "1 \<le> batch_size 
      \<lparr>X = [Scalar 10, Scalar 20, Scalar 30], weights = numpy_ones 3, batch_size = 2\<rparr>"
    by simp
  show ?thesis
    by (rule conjI [OF h batches_partition [OF h]])
qed

text \<open>
  Claim C4, as stated, fails: the constructor compares no lengths. With a dataset
  of two rows and a weight file of one entry the construction succeeds, and the
  epoch that follows yields a second batch whose weight slice is empty.
\<close>

theorem init_mismatch_counterexample:
  "MemoryMapGenerator_init
     [''X.npy'' \<mapsto> [Row [Scalar 1], Row [Scalar 2]], ''w.npy'' \<mapsto> [Scalar 1]]
     ''X.npy'' (Some ''w.npy'') (Some 1) =
     Inr \<lparr>X = [Row [Scalar 1], Row [Scalar 2]], weights = [Scalar 1], batch_size = 1\<rparr> \<and>
   length [Scalar 1] \<noteq> length [Row [Scalar 1], Row [Scalar 2]] \<and>
   batches \<lparr>X = [Row [Scalar 1], Row [Scalar 2]], weights = [Scalar 1], batch_size = 1\<rparr> =
     Some [([Row [Scalar 1]], [Scalar 1]), ([Row [Scalar 2]], [])]"
  by (simp add: MemoryMapGenerator_init_def numpy_load_def batches_def batches_call_def
      exhaust.simps batches_loop_def MemoryMapGenerator_len_def py_slice_def adjust_index_def)

text \<open>
  Claim C4, amended. Constructing a \<^verbatim>\<open>MemoryMapGenerator\<close> with a supplied
  weight array makes no length check: whenever both files load, the construction
  succeeds whatever the two lengths are, and the object keeps the dataset and the
  weight array as they were loaded.
\<close>

theorem init_no_shape_check:
  assumes "fs filename = Some x" and "fs w = Some ws"
  shows "MemoryMapGenerator_init fs filename (Some w) b =
           Inr \<lparr>X = x, weights = ws,
                batch_size = (case b of None \<Rightarrow> int (length x) | Some b' \<Rightarrow> b')\<rparr>"
  using assms by (simp add: MemoryMapGenerator_init_def numpy_load_def)

theorem init_no_shape_check_witness:
  "[''X.npy'' \<mapsto> [Row [Scalar 1], Row [Scalar 2]], ''w.npy'' \<mapsto> [Scalar 1]] ''X.npy'' =
     Some [Row [Scalar 1], Row [Scalar 2]] \<and>
   [''X.npy'' \<mapsto> [Row [Scalar 1], Row [Scalar 2]], ''w.npy'' \<mapsto> [Scalar 1]] ''w.npy'' =
     Some [Scalar 1] \<and>
   MemoryMapGenerator_init
     [''X.npy'' \<mapsto> [Row [Scalar 1], Row [Scalar 2]], ''w.npy'' \<mapsto> [Scalar 1]]
     ''X.npy'' (Some ''w.npy'') None =
     Inr \<lparr>X = [Row [Scalar 1], Row [Scalar 2]], weights = [Scalar 1], batch_size = 2\<rparr>"
  using init_no_shape_check
    [of "[''X.npy'' \<mapsto> [Row [Scalar 1], Row [Scalar 2]], ''w.npy'' \<mapsto> [Scalar 1]]"
      "''X.npy''" "[Row [Scalar 1], Row [Scalar 2]]" "''w.npy''" "[Scalar 1]" None]
  by simp

text \<open>
  Claim C5, as stated, fails in two places. For an empty dataset the default batch
  size is 0 and the epoch has no batch at all, not one; and with a weight file
  longer than the dataset the single batch holds only the first \<open>len(X)\<close> weights,
  not the entire weight vector.
\<close>

theorem default_batch_size_counterexample:
  "MemoryMapGenerator_init [''X.npy'' \<mapsto> []] ''X.npy'' None None =
     Inr \<lparr>X = [], weights = [], batch_size = 0\<rparr> \<and>
   batches \<lparr>X = [], weights = [], batch_size = 0\<rparr> = Some [] \<and>
   MemoryMapGenerator_init [''X.npy'' \<mapsto> [Scalar 5], ''w.npy'' \<mapsto> [Scalar 1, Scalar 2]]
     ''X.npy'' (Some ''w.npy'') None =
     Inr \<lparr>X = [Scalar 5], weights = [Scalar 1, Scalar 2], batch_size = 1\<rparr> \<and>
   batches \<lparr>X = [Scalar 5], weights = [Scalar 1, Scalar 2], batch_size = 1\<rparr> =
     Some [([Scalar 5], [Scalar 1])]"
  by (simp add: MemoryMapGenerator_init_def numpy_load_def numpy_ones_def batches_def
      batches_call_def exhaust.simps batches_loop_def MemoryMapGenerator_len_def py_slice_def
      adjust_index_def)

text \<open>
  Claim C5, amended. When no batch size is given, the batch size is the length of
  the dataset. For a dataset that is not empty, one call to \<^verbatim>\<open>batches()\<close> yields
  exactly one batch, made of the entire dataset and of the first \<open>len(X)\<close> weights,
  which is the entire weight vector whenever that is no longer than the dataset;
  for an empty dataset it yields no batch.
\<close>

theorem default_batch_size_epoch:
  assumes "MemoryMapGenerator_init fs filename w None = Inr g"
  shows "batch_size g = MemoryMapGenerator_len g \<and>
         batches g = (if X g = [] then Some []
                      else Some [(X g, take (length (X g)) (weights g))]) \<and>
         (length (weights g) \<le> length (X g) \<longrightarrow>
            take (length (X g)) (weights g) = weights g)"
proof -
  let ?n = "length (X g)"
  have b: "batch_size g = int ?n" using assms by (rule init_default_batch_size)
  have "batches g = (if X g = [] then Some [] else Some [(X g, take ?n (weights g))])"
  proof (cases "X g = []")
    case True
    then show ?thesis by (simp add: batches_def batches_empty)
  next
    case False
    then have pos: "0 < batch_size g" by (simp add: b)
    have "real ?n / real_of_int (batch_size g) = real ?n / real ?n"
      by (simp only: b of_int_of_nat_eq)
    also have "\<dots> = 1" using False by simp
    finally have d: "real ?n / real_of_int (batch_size g) = 1" .
    have m: "nat \<lceil>real ?n / real_of_int (batch_size g)\<rceil> = 1" unfolding d by simp
    have "py_slice (X g) 0 (int ?n) = X g" "py_slice (weights g) 0 (int ?n) = take ?n (weights g)"
      using py_slice_window [of "X g" 0 ?n] py_slice_window [of "weights g" 0 ?n] by simp_all
    then show ?thesis
      using False by (simp add: batches_def batches_positive [OF pos] m b)
  qed
  then show ?thesis by (simp add: b MemoryMapGenerator_len_def)
qed

theorem default_batch_size_epoch_witness:
  "MemoryMapGenerator_init [''X.npy'' \<mapsto> [Scalar 5, Scalar 6]] ''X.npy'' None None =
     Inr \<lparr>X = [Scalar 5, Scalar 6], weights = [Scalar 1, Scalar 1], batch_size = 2\<rparr> \<and>
   batches \<lparr>X = [Scalar 5, Scalar 6], weights = [Scalar 1, Scalar 1], batch_size = 2\<rparr> =
     Some [([Scalar 5, Scalar 6], [Scalar 1, Scalar 1])]"
proof -
  have h: "MemoryMapGenerator_init [''X.npy'' \<mapsto> [Scalar 5, Scalar 6]] ''X.npy'' None None =
     Inr \<lparr>X = [Scalar 5, Scalar 6], weights = [Scalar 1, Scalar 1], batch_size = 2\<rparr>"
    by (simp add: MemoryMapGenerator_init_def numpy_load_def numpy_ones_def)
  show ?thesis using h default_batch_size_epoch [OF h] by simp
qed

text \<open>
  Claim C6. When no weight source is given, the weights are \<open>numpy.ones\<close> of the
  dataset length, and in every batch that \<^verbatim>\<open>batches()\<close> yields, whatever the
  batch size, the weight slice is a vector of ones as long as the feature slice.
  This holds for each single \<^verbatim>\<open>next\<close>, and so for the list of an epoch that
  ends.
\<close>

theorem default_weights_ones:
  assumes "MemoryMapGenerator_init fs filename None b = Inr g"
  shows "weights g = numpy_ones (length (X g)) \<and>
         (\<forall>k xs ws. batches_nth g k = Some (xs, ws) \<longrightarrow> ws = numpy_ones (length xs)) \<and>
         (\<forall>bs. batches g = Some bs \<longrightarrow> (\<forall>(xs, ws)\<in>set bs. ws = numpy_ones (length xs)))"
proof -
  have w: "weights g = numpy_ones (length (X g))"
    using assms by (rule init_default_weights)
  have each: "ws = numpy_ones (length xs)" if "batches_nth g k = Some (xs, ws)" for k xs ws
    using that by (auto simp: batches_nth_eq ones_slice [OF w] split: if_splits)
  have "\<forall>(xs, ws)\<in>set bs. ws = numpy_ones (length xs)" if "batches g = Some bs" for bs
  proof -
    from that obtain r where r: "exhaust g (batches_call g) = Some r" and "bs = fst r"
      by (auto simp: batches_def)
    from exhaust_least [OF r] obtain m
      where m: "\<forall>j<m. batches_nth g j \<noteq> None"
        and "r = (map (\<lambda>j. the (batches_nth g j)) [0..<m], Finished)" by blast
    with \<open>bs = fst r\<close> have bs: "bs = map (\<lambda>j. the (batches_nth g j)) [0..<m]" by simp
    show ?thesis
    proof (clarify)
      fix xs ws assume "(xs, ws) \<in> set bs"
      then obtain j where "j < m" and "the (batches_nth g j) = (xs, ws)"
        unfolding bs by auto
      with m have "batches_nth g j = Some (xs, ws)" by auto
      then show "ws = numpy_ones (length xs)" by (rule each)
    qed
  qed
  with w each show ?thesis by blast
qed

theorem default_weights_ones_witness:
  "MemoryMapGenerator_init [''X.npy'' \<mapsto> [Scalar 5, Scalar 6, Scalar 7]] ''X.npy'' None (Some 2) =
     Inr \<lparr>X = [Scalar 5, Scalar 6, Scalar 7], weights = [Scalar 1, Scalar 1, Scalar 1], batch_size = 2\<rparr> \<and>
   batches_nth \<lparr>X = [Scalar 5, Scalar 6, Scalar 7], weights = [Scalar 1, Scalar 1, Scalar 1], batch_size = 2\<rparr> 1 =
     Some ([Scalar 7], [Scalar 1]) \<and>
   [Scalar 1] = numpy_ones (length [Scalar 7])"
proof -
  have h: "MemoryMapGenerator_init [''X.npy'' \<mapsto> [Scalar 5, Scalar 6, Scalar 7]] ''X.npy'' None (Some 2) =
     Inr \<lparr>X = [Scalar 5, Scalar 6, Scalar 7], weights = [Scalar 1, Scalar 1, Scalar 1], batch_size = 2\<rparr>"
    by (simp add: MemoryMapGenerator_init_def numpy_load_def numpy_ones_def)
  have n: "batches_nth \<lparr>X = [Scalar 5, Scalar 6, Scalar 7], weights = [Scalar 1, Scalar 1, Scalar 1], batch_size = 2\<rparr> 1 =
     Some ([Scalar 7], [Scalar 1])"
    by (simp add: batches_nth_def batches_call_def batches_loop_def MemoryMapGenerator_len_def
        py_slice_def adjust_index_def numpy_ones_def)
  from default_weights_ones [OF h] n have "[Scalar 1] = numpy_ones (length [Scalar 7])"
    by blast
  with h n show ?thesis by blast
qed

text \<open>
  Claim C7. If the dataset has length zero, then for every generator the
  constructor hands back, with the default or an explicit batch size of any
  value, \<^verbatim>\<open>batches()\<close> ends at once with the empty list of batches: the first
  \<^verbatim>\<open>next\<close> already raises \<^verbatim>\<open>StopIteration\<close>.
\<close>

theorem empty_dataset_no_batches:
  assumes "MemoryMapGenerator_init fs filename w b = Inr g"
    and "MemoryMapGenerator_len g = 0"
  shows "batches g = Some [] \<and> batches_nth g 0 = None"
proof -
  from assms(2) have e: "X g = []" by (simp add: MemoryMapGenerator_len_def)
  then show ?thesis by (simp add: batches_def batches_empty batches_nth_eq)
qed

theorem empty_dataset_no_batches_witness:
  "MemoryMapGenerator_init [''X.npy'' \<mapsto> []] ''X.npy'' None (Some 0) =
     Inr \<lparr>X = [], weights = [], batch_size = 0\<rparr> \<and>
   MemoryMapGenerator_len \<lparr>X = [], weights = [], batch_size = 0\<rparr> = 0 \<and>
   batches \<lparr>X = [], weights = [], batch_size = 0\<rparr> = Some [] \<and>
   batches_nth \<lparr>X = [], weights = [], batch_size = 0\<rparr> 0 = None"
proof -
  have h: "MemoryMapGenerator_init [''X.npy'' \<mapsto> []] ''X.npy'' None (Some 0) =
     Inr \<lparr>X = [], weights = [], batch_size = 0\<rparr>"
    by (simp add: MemoryMapGenerator_init_def numpy_load_def numpy_ones_def)
  have l: "MemoryMapGenerator_len \<lparr>X = [], weights = [], batch_size = 0\<rparr> = 0"
    by (simp add: MemoryMapGenerator_len_def)
  show ?thesis using h l empty_dataset_no_batches [OF h l] by blast
qed

text \<open>
  Claim C8. In a store that holds the object and the frames of whatever
  generator-iterators were made before, in whatever state they were left, let
  \<^verbatim>\<open>list(self.batches())\<close> run twice in succession, for a batch size with which
  an epoch ends. Both epochs yield the same batches, namely the chunks of \<open>X\<close> and
  of the weights from position zero on; the attributes of the object and the
  earlier frames are as before, and each of the two calls has added a frame of its
  own, which is finished. No cursor is carried from one epoch into the next.
\<close>

theorem batches_twice_identical:
  fixes s :: store
  assumes "0 < batch_size (obj s) \<or> X (obj s) = []"
  shows "do { (bs1, s1) \<leftarrow> batches_st s;
              (bs2, s2) \<leftarrow> batches_st s1;
              Some (bs1, bs2, s2) } =
         (let B = nat (batch_size (obj s));
              bs = map (\<lambda>j. (take B (drop (j * B) (X (obj s))),
                             take B (drop (j * B) (weights (obj s)))))
                     [0..<nat \<lceil>real (length (X (obj s))) / real_of_int (batch_size (obj s))\<rceil>]
          in Some (bs, bs, s\<lparr>frames := frames s @ [Finished, Finished]\<rparr>))"
proof -
  let ?s1 = "s\<lparr>frames := frames s @ [Finished]\<rparr>"
  have 1: "batches_st s = Some (fst (the (exhaust (obj s) Created)), ?s1)"
    using batches_st_eq [OF epoch_chunks [OF assms]] by (simp add: epoch_chunks [OF assms])
  have "exhaust (obj ?s1) Created = exhaust (obj s) Created" by simp
  with epoch_chunks [OF assms] have "exhaust (obj ?s1) Created = Some (fst (the (exhaust (obj s) Created)), Finished)"
    by simp
  from batches_st_eq [OF this]
  have 2: "batches_st ?s1 = Some (fst (the (exhaust (obj s) Created)),
             s\<lparr>frames := frames s @ [Finished, Finished]\<rparr>)"
    by simp
  show ?thesis
    unfolding Let_def by (simp add: 1 2 epoch_chunks [OF assms])
qed

theorem batches_twice_identical_witness:
  "do { (bs1, s1) \<leftarrow> batches_st
           \<lparr>obj = \<lparr>X = [Scalar 5, Scalar 6, Scalar 7], weights = [Scalar 1, Scalar 1, Scalar 1],
                   batch_size = 2\<rparr>,
            frames = [Suspended 0 2 0]\<rparr>;
        (bs2, s2) \<leftarrow> batches_st s1;
        Some (bs1, bs2, s2) } =
   Some ([([Scalar 5, Scalar 6], [Scalar 1, Scalar 1]), ([Scalar 7], [Scalar 1])],
         [([Scalar 5, Scalar 6], [Scalar 1, Scalar 1]), ([Scalar 7], [Scalar 1])],
         \<lparr>obj = \<lparr>X = [Scalar 5, Scalar 6, Scalar 7], weights = [Scalar 1, Scalar 1, Scalar 1],
                 batch_size = 2\<rparr>,
          frames = [Suspended 0 2 0, Finished, Finished]\<rparr>)"
proof -
  let ?s = "\<lparr>obj = \<lparr>X = [Scalar 5, Scalar 6, Scalar 7],
                     weights = [Scalar 1, Scalar 1, Scalar 1], batch_size = 2\<rparr>,
              frames = [Suspended 0 2 0]\<rparr>"
  have h: "0 < batch_size (obj ?s) \<or> X (obj ?s) = []" by simp
  have c: "nat \<lceil>real (length (X (obj ?s))) / real_of_int (batch_size (obj ?s))\<rceil> = 2"
    by simp
  show ?thesis
    unfolding batches_twice_identical [OF h] Let_def c
    by (simp add: eval_nat_numeral)
qed

text \<open>
  Claim C9, evaluated on the code. Each of the six operations of
  \<^verbatim>\<open>BaseGenerator\<close> hands the class \<^verbatim>\<open>NotImplementedError\<close> back to the caller
  as an ordinary value; none of them raises it.
\<close>

theorem BaseGenerator_returns_class:
  "BaseGenerator_len self = Returns NotImplementedError_class \<and>
   BaseGenerator_shape self = Returns NotImplementedError_class \<and>
   BaseGenerator_ndim self = Returns NotImplementedError_class \<and>
   BaseGenerator_batches self = Returns NotImplementedError_class \<and>
   BaseGenerator_unlabeled_batches self = Returns NotImplementedError_class \<and>
   BaseGenerator_labeled_batches self = Returns NotImplementedError_class \<and>
   BaseGenerator_batches BaseGenerator_init \<noteq> Raises NotImplementedError"
  by (simp add: BaseGenerator_len_def BaseGenerator_shape_def BaseGenerator_ndim_def
      BaseGenerator_batches_def BaseGenerator_unlabeled_batches_def
      BaseGenerator_labeled_batches_def)

text \<open>
  Claim C10. One traversal of \<^verbatim>\<open>batches()\<close> ends if and only if the batch size
  is positive or the dataset is empty. A traversal that does not end is one in
  which every \<^verbatim>\<open>next\<close> yields a batch. In particular, with the batch size 0
  on a dataset that is not empty, every \<^verbatim>\<open>next\<close> yields a pair of empty slices
  and leaves \<open>start\<close> and \<open>end\<close> at 0.
\<close>

theorem batches_terminates_iff:
  "((\<exists>bs. batches self = Some bs) \<longleftrightarrow>
      (0 < batch_size self \<or> MemoryMapGenerator_len self = 0)) \<and>
   (batches self = None \<longleftrightarrow> (\<forall>k. batches_nth self k \<noteq> None)) \<and>
   (batch_size self = 0 \<and> MemoryMapGenerator_len self \<noteq> 0 \<longrightarrow>
      batches self = None \<and>
      (\<forall>k. batches_nth self k = Some ([], []) \<and>
           batches_advance self (Suc k) (batches_call self) = Suspended 0 0 (int k)))"
proof -
  let ?n = "int (length (X self))" and ?b = "batch_size self"
  have stop: "(\<exists>k. batches_nth self k = None) \<longleftrightarrow> (0 < ?b \<or> X self = [])"
  proof
    assume "\<exists>k. batches_nth self k = None"
    then obtain k where "\<not> (0 < length (X self) \<and> int k * ?b < ?n)"
      by (auto simp: batches_nth_eq split: if_splits)
    then have "X self = [] \<or> ?n \<le> int k * ?b" by auto
    then show "0 < ?b \<or> X self = []"
    proof
      assume "X self = []" then show ?thesis ..
    next
      assume ge: "?n \<le> int k * ?b"
      show ?thesis
      proof (cases "X self = []")
        case True then show ?thesis ..
      next
        case False
        then have "0 < ?n" by simp
        with ge have "0 < int k * ?b" by linarith
        then have "0 < ?b" by (simp add: zero_less_mult_iff)
        then show ?thesis ..
      qed
    qed
  next
    assume "0 < ?b \<or> X self = []"
    then show "\<exists>k. batches_nth self k = None"
    proof
      assume "X self = []"
      then have "batches_nth self 0 = None" by (simp add: batches_nth_eq)
      then show ?thesis ..
    next
      assume pos: "0 < ?b"
      then have "1 \<le> ?b" by simp
      then have "?n * 1 \<le> ?n * ?b" by (intro mult_left_mono) simp_all
      then have "batches_nth self (length (X self)) = None" by (simp add: batches_nth_eq)
      then show ?thesis ..
    qed
  qed
  have none: "batches self = None \<longleftrightarrow> (\<forall>k. batches_nth self k \<noteq> None)"
    by (rule batches_None_iff)
  have some: "(\<exists>bs. batches self = Some bs) \<longleftrightarrow> (0 < ?b \<or> MemoryMapGenerator_len self = 0)"
  proof -
    have "(\<exists>bs. batches self = Some bs) \<longleftrightarrow> batches self \<noteq> None" by auto
    also have "\<dots> \<longleftrightarrow> (\<exists>k. batches_nth self k = None)"
      unfolding none by (simp only: not_all not_not)
    also have "\<dots> \<longleftrightarrow> (0 < ?b \<or> X self = [])" by (rule stop)
    finally show ?thesis by (simp add: MemoryMapGenerator_len_def)
  qed
  have zero: "batches self = None \<and>
      (\<forall>k. batches_nth self k = Some ([], []) \<and>
           batches_advance self (Suc k) (batches_call self) = Suspended 0 0 (int k))"
    if z: "?b = 0" and ne: "MemoryMapGenerator_len self \<noteq> 0"
  proof -
    from ne have x: "0 < length (X self)" by (simp add: MemoryMapGenerator_len_def)
    have nth: "batches_nth self k = Some ([], [])" for k
      using x by (simp add: batches_nth_eq z py_slice_def)
    have adv: "batches_advance self (Suc k) (batches_call self) = Suspended 0 0 (int k)" for k
      using x unfolding batches_call_def advance_Created by (simp add: z)
    have "batches self = None" unfolding none using nth by simp
    with nth adv show ?thesis by blast
  qed
  from some none zero show ?thesis by blast
qed

theorem batches_terminates_iff_witness:
  "batch_size \<lparr>X = [Scalar 5], weights = [Scalar 1], batch_size = 0\<rparr> = 0 \<and>
   MemoryMapGenerator_len \<lparr>X = [Scalar 5], weights = [Scalar 1], batch_size = 0\<rparr> \<noteq> 0 \<and>
   batches \<lparr>X = [Scalar 5], weights = [Scalar 1], batch_size = 0\<rparr> = None \<and>
   batches_nth \<lparr>X = [Scalar 5], weights = [Scalar 1], batch_size = 0\<rparr> 3 = Some ([], []) \<and>
   \<not> (\<exists>bs. batches \<lparr>X = [Scalar 5], weights = [Scalar 1], batch_size = 0\<rparr> = Some bs)"
proof -
  have h: "batch_size \<lparr>X = [Scalar 5], weights = [Scalar 1], batch_size = 0\<rparr> = 0 \<and>
           MemoryMapGenerator_len \<lparr>X = [Scalar 5], weights = [Scalar 1], batch_size = 0\<rparr> \<noteq> 0"
    by (simp add: MemoryMapGenerator_len_def)
  show ?thesis
    using h batches_terminates_iff [of "\<lparr>X = [Scalar 5], weights = [Scalar 1], batch_size = 0\<rparr>"]
    by simp
qed

end
